theory Spec2Isabelle
  imports Main
begin

section \<open>The Game of Life with ageing cells (life.cpp)\<close>

text \<open>
  The program keeps two \<^verbatim>\<open>Grid<int>\<close> objects, \<^verbatim>\<open>current\<close> and \<^verbatim>\<open>next\<close>, and a
  \<^verbatim>\<open>LifeDisplay\<close>. All three are passed by reference to every function, so the model
  threads one state record through the code and returns it updated. Every place where the
  C++ can stop with an exception (a bounds-checked grid access, a resize to a negative
  size) is a branch of the model that returns an error.
\<close>

subsection \<open>Machine integers and errors\<close>

text \<open>
  A cell is a C++ \<^verbatim>\<open>int\<close>: a 32-bit two's complement value. It is modelled as an \<open>int\<close>
  in the range \<open>INT_MIN .. INT_MAX\<close>. The one arithmetic operation the program performs on
  cells is \<^verbatim>\<open>current[i][j] + 1\<close>, with no test before it and no failure path after it:
  the addition is the machine's, which wraps around, so that \<open>INT_MAX + 1\<close> is \<open>INT_MIN\<close>.
  \<open>wrapInt\<close> reduces a sum to the range that way.
\<close>

definition INT_MAX :: int where
  "INT_MAX = 2147483647"

definition INT_MIN :: int where
  "INT_MIN = - 2147483648"

datatype error = InvalidDimension | OutOfBounds

definition bindE :: "error + 'a \<Rightarrow> ('a \<Rightarrow> error + 'b) \<Rightarrow> error + 'b" where
  "bindE m f = (case m of Inl e \<Rightarrow> Inl e | Inr x \<Rightarrow> f x)"

definition wrapInt :: "int \<Rightarrow> int" where
  "wrapInt x = (x + 2147483648) mod 4294967296 - 2147483648"

definition addInt :: "int \<Rightarrow> int \<Rightarrow> int" where
  "addInt a b = wrapInt (a + b)"

subsection \<open>The grid\<close>

text \<open>
  Modelled from the spec: the class \<^verbatim>\<open>Grid<int>\<close> comes from a library header that is
  not part of the sources. Section 4.1 of the specification gives its contract: a
  \<open>rows \<times> cols\<close> container whose cells start at 0, whose \<open>get\<close> and \<open>set\<close> fail with
  \<open>OutOfBounds\<close> outside \<open>[0, rows) \<times> [0, cols)\<close>, whose creation fails with
  \<open>InvalidDimension\<close> on a negative size, and whose \<open>inBounds\<close> never fails. The cells
  are kept as a list of rows.
\<close>

record grid =
  numRows :: int
  numCols :: int
  elements :: "int list list"

definition wf_grid :: "grid \<Rightarrow> bool" where
  "wf_grid g \<longleftrightarrow>
     0 \<le> numRows g \<and> 0 \<le> numCols g \<and>
     length (elements g) = nat (numRows g) \<and>
     list_all (\<lambda>r. length r = nat (numCols g) \<and>
                    list_all (\<lambda>v. INT_MIN \<le> v \<and> v \<le> INT_MAX) r) (elements g)"

definition inBounds :: "grid \<Rightarrow> int \<Rightarrow> int \<Rightarrow> bool" where
  "inBounds g row col \<longleftrightarrow> 0 \<le> row \<and> 0 \<le> col \<and> row < numRows g \<and> col < numCols g"

definition cellAt :: "grid \<Rightarrow> int \<Rightarrow> int \<Rightarrow> int" where
  "cellAt g row col = elements g ! nat row ! nat col"

definition putCell :: "grid \<Rightarrow> int \<Rightarrow> int \<Rightarrow> int \<Rightarrow> grid" where
  "putCell g row col v =
     g\<lparr>elements := (elements g)[nat row := (elements g ! nat row)[nat col := v]]\<rparr>"

definition gridGet :: "grid \<Rightarrow> int \<Rightarrow> int \<Rightarrow> error + int" where
  "gridGet g row col = (if inBounds g row col then Inr (cellAt g row col) else Inl OutOfBounds)"

definition gridSet :: "grid \<Rightarrow> int \<Rightarrow> int \<Rightarrow> int \<Rightarrow> error + grid" where
  "gridSet g row col v =
     (if inBounds g row col then Inr (putCell g row col v) else Inl OutOfBounds)"

definition resize :: "int \<Rightarrow> int \<Rightarrow> error + grid" where
  "resize nRows nCols =
     (if nRows < 0 \<or> nCols < 0 then Inl InvalidDimension
      else Inr \<lparr>numRows = nRows, numCols = nCols,
                elements = replicate (nat nRows) (replicate (nat nCols) 0)\<rparr>)"

subsection \<open>The display and the program state\<close>

text \<open>
  Modelled from the spec: \<^verbatim>\<open>LifeDisplay\<close> is the external observer of section 6; its
  code is not part of the sources. The model records the calls it receives, in order.
\<close>

datatype draw = DrawCellAt int int int | Repaint

record life =
  display :: "draw list"
  current :: grid
  nextg :: grid

definition drawCellAt :: "draw list \<Rightarrow> int \<Rightarrow> int \<Rightarrow> int \<Rightarrow> draw list" where
  "drawCellAt d row col age = d @ [DrawCellAt row col age]"

definition repaint :: "draw list \<Rightarrow> draw list" where
  "repaint d = d @ [Repaint]"

subsection \<open>Counting neighbours\<close>

text \<open>\<^verbatim>\<open>isEmpty\<close>: the bounds-checked read \<^verbatim>\<open>current[row][col] == 0\<close>.\<close>

definition isEmpty :: "grid \<Rightarrow> int \<Rightarrow> int \<Rightarrow> error + bool" where
  "isEmpty cur row col = bindE (gridGet cur row col) (\<lambda>v. Inr (v = 0))"

text \<open>
  \<^verbatim>\<open>isDirectionEmpty\<close>: the direction \<open>(0, 0)\<close> is the cell itself and counts as empty; a
  position outside the grid counts as empty; a position inside is read.
\<close>

definition isDirectionEmpty :: "grid \<Rightarrow> int \<Rightarrow> int \<Rightarrow> int \<Rightarrow> int \<Rightarrow> error + bool" where
  "isDirectionEmpty cur row col drow dcol =
     (let row' = row + drow; col' = col + dcol in
      if drow = 0 \<and> dcol = 0 then Inr True
      else if inBounds cur row' col' then bindE (gridGet cur row' col') (\<lambda>v. Inr (v = 0))
      else Inr True)"

text \<open>
  \<^verbatim>\<open>isNumNeighboursCorrect\<close>: two nested loops over \<open>drow, dcol = -1, 0, 1\<close>, each a
  recursive function on its counter, carrying \<open>numNeighbours\<close>.
\<close>

function dcolLoop :: "grid \<Rightarrow> int \<Rightarrow> int \<Rightarrow> int \<Rightarrow> int \<Rightarrow> int \<Rightarrow> error + int" where
  "dcolLoop cur row col drow dcol numNeighbours =
     (if dcol \<le> 1 then
        (case isDirectionEmpty cur row col drow dcol of
           Inl e \<Rightarrow> Inl e
         | Inr dirEmpty \<Rightarrow>
             dcolLoop cur row col drow (dcol + 1)
               (if \<not> dirEmpty then numNeighbours + 1 else numNeighbours))
      else Inr numNeighbours)"
  by pat_completeness auto

termination
  by (relation "measure (\<lambda>(cur, row, col, drow, dcol, n). nat (2 - dcol))") auto

declare dcolLoop.simps [simp del]

function drowLoop :: "grid \<Rightarrow> int \<Rightarrow> int \<Rightarrow> int \<Rightarrow> int \<Rightarrow> error + int" where
  "drowLoop cur row col drow numNeighbours =
     (if drow \<le> 1 then
        (case dcolLoop cur row col drow (- 1) numNeighbours of
           Inl e \<Rightarrow> Inl e
         | Inr n \<Rightarrow> drowLoop cur row col (drow + 1) n)
      else Inr numNeighbours)"
  by pat_completeness auto

termination
  by (relation "measure (\<lambda>(cur, row, col, drow, n). nat (2 - drow))") auto

declare drowLoop.simps [simp del]

definition isNumNeighboursCorrect :: "grid \<Rightarrow> int \<Rightarrow> int \<Rightarrow> int \<Rightarrow> error + bool" where
  "isNumNeighboursCorrect cur row col neighbours =
     bindE (drowLoop cur row col (- 1) 0) (\<lambda>numNeighbours. Inr (numNeighbours = neighbours))"

subsection \<open>One generation\<close>

text \<open>The assignment \<^verbatim>\<open>next[i][j] = v\<close>, bounds-checked.\<close>

definition assignNext :: "life \<Rightarrow> int \<Rightarrow> int \<Rightarrow> int \<Rightarrow> error + life" where
  "assignNext s i j v = bindE (gridSet (nextg s) i j v) (\<lambda>g. Inr (s\<lparr>nextg := g\<rparr>))"

text \<open>The assignment \<^verbatim>\<open>next[i][j] = current[i][j] + 1\<close>.\<close>

definition ageCell :: "life \<Rightarrow> int \<Rightarrow> int \<Rightarrow> error + life" where
  "ageCell s i j =
     bindE (gridGet (current s) i j) (\<lambda>v. assignNext s i j (addInt v 1))"

text \<open>
  The body of the inner loop of \<^verbatim>\<open>computeNext\<close>: the chain of tests on the number of
  neighbours (the \<^verbatim>\<open>||\<close> does not evaluate its second operand when the first holds), then
  the call \<^verbatim>\<open>display.drawCellAt(i, j, next.get(i, j))\<close>.
\<close>

definition loopBody :: "life \<Rightarrow> int \<Rightarrow> int \<Rightarrow> error + life" where
  "loopBody s i j =
     bindE
       (bindE (bindE (isNumNeighboursCorrect (current s) i j 0)
                 (\<lambda>zero. if zero then Inr True else isNumNeighboursCorrect (current s) i j 1))
          (\<lambda>lonely.
             if lonely then assignNext s i j 0
             else bindE (isNumNeighboursCorrect (current s) i j 2)
               (\<lambda>two.
                  if two then
                    bindE (isEmpty (current s) i j)
                      (\<lambda>cellEmpty. if cellEmpty then assignNext s i j 0 else ageCell s i j)
                  else bindE (isNumNeighboursCorrect (current s) i j 3)
                    (\<lambda>three.
                       if three then
                         bindE (isEmpty (current s) i j)
                           (\<lambda>cellEmpty. if cellEmpty then assignNext s i j 1 else ageCell s i j)
                       else assignNext s i j 0))))
       (\<lambda>s1. bindE (gridGet (nextg s1) i j)
                (\<lambda>age. Inr (s1\<lparr>display := drawCellAt (display s1) i j age\<rparr>)))"

text \<open>
  The two loops of \<^verbatim>\<open>isNumNeighboursCorrect\<close> run a fixed nine times. Unrolled, the count
  is the number of occupied positions among the eight around the cell, where a position
  is occupied when it is inside the grid and its cell is not 0. No call can fail, so the
  loop body of \<^verbatim>\<open>computeNext\<close> can be seen to write only into \<^verbatim>\<open>next\<close> and the display;
  the termination of its loops rests on that.
\<close>

lemma bindE_Inr [simp]: "bindE (Inr x) f = f x"
  by (simp add: bindE_def)

lemma bindE_Inl [simp]: "bindE (Inl e) f = Inl e"
  by (simp add: bindE_def)

lemma bindE_eq_Inr: "bindE m f = Inr y \<longleftrightarrow> (\<exists>x. m = Inr x \<and> f x = Inr y)"
  by (cases m) simp_all

definition occupied :: "grid \<Rightarrow> int \<Rightarrow> int \<Rightarrow> int" where
  "occupied g row col = (if inBounds g row col \<and> cellAt g row col \<noteq> 0 then 1 else 0)"

definition countNeighbours :: "grid \<Rightarrow> int \<Rightarrow> int \<Rightarrow> int" where
  "countNeighbours g row col =
     occupied g (row - 1) (col - 1) + occupied g (row - 1) col + occupied g (row - 1) (col + 1) +
     occupied g row (col - 1) + occupied g row (col + 1) +
     occupied g (row + 1) (col - 1) + occupied g (row + 1) col + occupied g (row + 1) (col + 1)"

lemma isDirectionEmpty_eq:
  "isDirectionEmpty g row col drow dcol =
     Inr ((drow = 0 \<and> dcol = 0) \<or> occupied g (row + drow) (col + dcol) = 0)"
  by (simp add: isDirectionEmpty_def Let_def gridGet_def occupied_def)

lemma dcolLoop_unroll:
  "dcolLoop g row col drow (- 1) n =
     Inr (n + occupied g (row + drow) (col - 1)
            + (if drow = 0 then 0 else occupied g (row + drow) col)
            + occupied g (row + drow) (col + 1))"
proof -
  have 3: "dcolLoop g row col drow 2 m = Inr m" for m
    by (subst dcolLoop.simps) simp
  have 2: "dcolLoop g row col drow 1 m = Inr (m + occupied g (row + drow) (col + 1))" for m
    by (subst dcolLoop.simps) (simp add: isDirectionEmpty_eq 3 occupied_def)
  have 1: "dcolLoop g row col drow 0 m =
      Inr (m + (if drow = 0 then 0 else occupied g (row + drow) col)
             + occupied g (row + drow) (col + 1))" for m
    by (subst dcolLoop.simps) (simp add: isDirectionEmpty_eq 2 occupied_def)
  show ?thesis
    by (subst dcolLoop.simps) (simp add: isDirectionEmpty_eq 1 occupied_def)
qed

lemma drowLoop_unroll: "drowLoop g row col (- 1) 0 = Inr (countNeighbours g row col)"
proof -
  have 3: "drowLoop g row col 2 m = Inr m" for m
    by (subst drowLoop.simps) simp
  have 2: "drowLoop g row col 1 m =
      Inr (m + occupied g (row + 1) (col - 1) + occupied g (row + 1) col
             + occupied g (row + 1) (col + 1))" for m
    by (subst drowLoop.simps) (simp add: dcolLoop_unroll 3)
  have 1: "drowLoop g row col 0 m =
      Inr (m + occupied g row (col - 1) + occupied g row (col + 1)
             + occupied g (row + 1) (col - 1) + occupied g (row + 1) col
             + occupied g (row + 1) (col + 1))" for m
    by (subst drowLoop.simps) (simp add: dcolLoop_unroll 2)
  show ?thesis
    by (subst drowLoop.simps) (simp add: dcolLoop_unroll 1 countNeighbours_def)
qed

lemma isNumNeighboursCorrect_eq:
  "isNumNeighboursCorrect g row col k = Inr (countNeighbours g row col = k)"
  by (simp add: isNumNeighboursCorrect_def drowLoop_unroll)

lemma assignNext_current: "assignNext s i j v = Inr s' \<Longrightarrow> current s' = current s"
  by (auto simp: assignNext_def bindE_eq_Inr)

lemma ageCell_current: "ageCell s i j = Inr s' \<Longrightarrow> current s' = current s"
  by (auto simp: ageCell_def bindE_eq_Inr dest: assignNext_current)

lemma loopBody_current: "loopBody s i j = Inr s' \<Longrightarrow> current s' = current s"
  by (auto simp: loopBody_def isNumNeighboursCorrect_eq bindE_eq_Inr
           split: if_splits dest: assignNext_current ageCell_current)

text \<open>
  The loops of \<^verbatim>\<open>computeNext\<close>. Each reads its bound from the grid at every test, as
  the C++ does; they end because the loop body leaves \<^verbatim>\<open>current\<close> as it is.
\<close>

function colLoop :: "life \<Rightarrow> int \<Rightarrow> int \<Rightarrow> error + life" where
  "colLoop s i j =
     (if j < numCols (current s) then
        (case loopBody s i j of
           Inl e \<Rightarrow> Inl e
         | Inr s' \<Rightarrow> colLoop s' i (j + 1))
      else Inr s)"
  by pat_completeness auto

termination
  by (relation "measure (\<lambda>(s, i, j). nat (numCols (current s) - j))")
     (auto dest: loopBody_current)

declare colLoop.simps [simp del]

lemma colLoop_current: "colLoop s i j = Inr s' \<Longrightarrow> current s' = current s"
proof (induction s i j rule: colLoop.induct)
  case (1 s i j)
  show ?case
  proof (cases "j < numCols (current s)")
    case False
    with "1.prems" show ?thesis by (simp add: colLoop.simps)
  next
    case True
    with "1.prems" obtain s1 where b: "loopBody s i j = Inr s1" and r: "colLoop s1 i (j + 1) = Inr s'"
      by (subst (asm) colLoop.simps) (auto split: sum.splits)
    from "1.IH" [OF True b r] loopBody_current [OF b] show ?thesis by simp
  qed
qed

function rowLoop :: "life \<Rightarrow> int \<Rightarrow> error + life" where
  "rowLoop s i =
     (if i < numRows (current s) then
        (case colLoop s i 0 of
           Inl e \<Rightarrow> Inl e
         | Inr s' \<Rightarrow> rowLoop s' (i + 1))
      else Inr s)"
  by pat_completeness auto

termination
  by (relation "measure (\<lambda>(s, i). nat (numRows (current s) - i))")
     (auto dest: colLoop_current)

declare rowLoop.simps [simp del]

text \<open>\<^verbatim>\<open>computeNext\<close>: resize \<^verbatim>\<open>next\<close> to the size of \<^verbatim>\<open>current\<close>, then fill it.\<close>

definition computeNext :: "life \<Rightarrow> error + life" where
  "computeNext s =
     bindE (resize (numRows (current s)) (numCols (current s)))
       (\<lambda>g. rowLoop (s\<lparr>nextg := g\<rparr>) 0)"

text \<open>\<^verbatim>\<open>advance\<close>: compute, copy \<^verbatim>\<open>next\<close> over \<^verbatim>\<open>current\<close>, repaint.\<close>

definition advance :: "life \<Rightarrow> error + life" where
  "advance s =
     bindE (computeNext s)
       (\<lambda>s'. Inr (s'\<lparr>current := nextg s', display := repaint (display s')\<rparr>))"

subsection \<open>The animation loop\<close>

text \<open>
  Modelled from the spec: \<^verbatim>\<open>GEvent\<close>, \<^verbatim>\<open>GTimer\<close> and \<^verbatim>\<open>waitForEvent\<close> belong to a library
  outside the sources; they are the cadence and control source of section 6. An event has
  a class and a type. \<^verbatim>\<open>waitForEvent(TIMER_EVENT + MOUSE_EVENT)\<close> blocks until the next timer
  or mouse event and returns it, so the loop of \<^verbatim>\<open>runAnimation\<close> is run over the list of
  events delivered so far, in order of delivery: the timer only decides when ticks arrive.
  When the list is used up the loop is blocked in \<^verbatim>\<open>waitForEvent\<close> and still \<open>Running\<close>;
  \<^verbatim>\<open>break\<close> is \<open>Stopped\<close>. An error of \<^verbatim>\<open>advance\<close> leaves the loop as the exception does.
\<close>

datatype event_class = TIMER_EVENT | MOUSE_EVENT

datatype event_type =
  TIMER_TICKED | MOUSE_CLICKED | MOUSE_PRESSED | MOUSE_RELEASED | MOUSE_MOVED | MOUSE_DRAGGED

record gevent =
  getEventClass :: event_class
  getEventType :: event_type

datatype run_state = Running | Stopped

fun runAnimation :: "life \<Rightarrow> gevent list \<Rightarrow> error + run_state \<times> life" where
  "runAnimation s [] = Inr (Running, s)"
| "runAnimation s (event # events) =
     (if getEventClass event = TIMER_EVENT then
        (case advance s of
           Inl e \<Rightarrow> Inl e
         | Inr s' \<Rightarrow> runAnimation s' events)
      else if getEventType event = MOUSE_PRESSED then Inr (Stopped, s)
      else runAnimation s events)"


section \<open>Notions of the specification\<close>

text \<open>
  The rule table of section 4.2 in the specification's words: a cell is alive when its
  value is above 0, the neighbours are the eight surrounding positions, one outside the
  grid counts as dead.
\<close>

definition neighbourOffsets :: "(int \<times> int) list" where
  "neighbourOffsets = [(- 1, - 1), (- 1, 0), (- 1, 1), (0, - 1), (0, 1), (1, - 1), (1, 0), (1, 1)]"

definition aliveNeighbours :: "grid \<Rightarrow> int \<Rightarrow> int \<Rightarrow> int" where
  "aliveNeighbours g row col =
     int (length (filter (\<lambda>(drow, dcol). inBounds g (row + drow) (col + dcol) \<and>
                                          0 < cellAt g (row + drow) (col + dcol))
                   neighbourOffsets))"

definition ruleTable :: "int \<Rightarrow> int \<Rightarrow> int" where
  "ruleTable v n =
     (if n \<le> 1 then 0
      else if n = 2 then (if 0 < v then v + 1 else 0)
      else if n = 3 then (if 0 < v then v + 1 else 1)
      else 0)"

text \<open>
  Predicates on whole grids: no cell negative (the ages of section 3), no cell above a
  bound, no cell at the largest \<^verbatim>\<open>int\<close>.
\<close>

definition nonNegative :: "grid \<Rightarrow> bool" where
  "nonNegative g = list_all (list_all (\<lambda>v. 0 \<le> v)) (elements g)"


definition belowIntMax :: "grid \<Rightarrow> bool" where
  "belowIntMax g = list_all (list_all (\<lambda>v. v < INT_MAX)) (elements g)"

text \<open>
  \<open>isBlock r c a g\<close>: the four cells of the \<open>2 \<times> 2\<close> square with upper left corner
  \<open>(r, c)\<close> lie inside \<open>g\<close> and hold \<open>a\<close>; every other cell of \<open>g\<close> holds 0. The
  list \<open>positions g\<close> holds the cells of \<open>g\<close> in the order of the two loops of
  \<^verbatim>\<open>computeNext\<close>.
\<close>

definition rowPositions :: "grid \<Rightarrow> int \<Rightarrow> int \<Rightarrow> (int \<times> int) list" where
  "rowPositions g i j = map (Pair i) [j..numCols g - 1]"

definition positionsFrom :: "grid \<Rightarrow> int \<Rightarrow> (int \<times> int) list" where
  "positionsFrom g i = concat (map (\<lambda>r. rowPositions g r 0) [i..numRows g - 1])"

definition positions :: "grid \<Rightarrow> (int \<times> int) list" where
  "positions g = positionsFrom g 0"

definition inBlock :: "int \<Rightarrow> int \<Rightarrow> int \<Rightarrow> int \<Rightarrow> bool" where
  "inBlock r c i j \<longleftrightarrow> (i = r \<or> i = r + 1) \<and> (j = c \<or> j = c + 1)"

definition isBlock :: "int \<Rightarrow> int \<Rightarrow> int \<Rightarrow> grid \<Rightarrow> bool" where
  "isBlock r c a g \<longleftrightarrow>
     inBounds g r c \<and> inBounds g (r + 1) (c + 1) \<and>
     list_all (\<lambda>(i, j). cellAt g i j = (if inBlock r c i j then a else 0)) (positions g)"

subsection \<open>Sample inputs\<close>

text \<open>
  \<open>initial g\<close> is the state \<^verbatim>\<open>main\<close> builds before the first generation: nothing drawn,
  \<^verbatim>\<open>current\<close> holding the colony, \<^verbatim>\<open>next\<close> default-constructed.
\<close>

definition initial :: "grid \<Rightarrow> life" where
  "initial g = \<lparr>display = [], current = g, nextg = \<lparr>numRows = 0, numCols = 0, elements = []\<rparr>\<rparr>"

definition square2 :: "int \<Rightarrow> grid" where
  "square2 a = \<lparr>numRows = 2, numCols = 2, elements = [[a, a], [a, a]]\<rparr>"

definition block4 :: "int \<Rightarrow> grid" where
  "block4 a = \<lparr>numRows = 4, numCols = 4,
               elements = [[0, 0, 0, 0], [0, a, a, 0], [0, a, a, 0], [0, 0, 0, 0]]\<rparr>"

definition timerTick :: gevent where
  "timerTick = \<lparr>getEventClass = TIMER_EVENT, getEventType = TIMER_TICKED\<rparr>"

definition mousePress :: gevent where
  "mousePress = \<lparr>getEventClass = MOUSE_EVENT, getEventType = MOUSE_PRESSED\<rparr>"

definition afterTwoTicks :: life where
  "afterTwoTicks =
     \<lparr>display =
        [DrawCellAt 0 0 2, DrawCellAt 0 1 2, DrawCellAt 1 0 2, DrawCellAt 1 1 2, Repaint,
         DrawCellAt 0 0 3, DrawCellAt 0 1 3, DrawCellAt 1 0 3, DrawCellAt 1 1 3, Repaint],
      current = square2 3, nextg = square2 3\<rparr>"

section \<open>The loops in closed form\<close>

text \<open>
  \<open>cellRule\<close> is the chain of tests of \<^verbatim>\<open>computeNext\<close> as a function of the cell's value
  and its number of neighbours; \<open>nextCell\<close> applies it at a position. \<open>cellSteps\<close> runs
  the loop body along a list of positions: the loops of \<^verbatim>\<open>computeNext\<close> are the walk along
  \<open>positions\<close>, and other lists give the same body in another order.
\<close>

definition cellRule :: "int \<Rightarrow> int \<Rightarrow> int" where
  "cellRule v n =
     (if n = 0 \<or> n = 1 then 0
      else if n = 2 then (if v = 0 then 0 else addInt v 1)
      else if n = 3 then (if v = 0 then 1 else addInt v 1)
      else 0)"

definition nextCell :: "grid \<Rightarrow> int \<Rightarrow> int \<Rightarrow> int" where
  "nextCell g i j = cellRule (cellAt g i j) (countNeighbours g i j)"

fun cellSteps :: "life \<Rightarrow> (int \<times> int) list \<Rightarrow> error + life" where
  "cellSteps s [] = Inr s"
| "cellSteps s ((i, j) # ps) =
     (case loopBody s i j of Inl e \<Rightarrow> Inl e | Inr s' \<Rightarrow> cellSteps s' ps)"

definition sameSize :: "grid \<Rightarrow> grid \<Rightarrow> bool" where
  "sameSize g h \<longleftrightarrow> numRows g = numRows h \<and> numCols g = numCols h"

definition ind :: "bool \<Rightarrow> int" where
  "ind b = (if b then 1 else 0)"

subsection \<open>Writing one cell\<close>

lemma inBounds_putCell [simp]: "inBounds (putCell g r c v) i j = inBounds g i j"
  by (simp add: inBounds_def putCell_def)

lemma loopBody_eq:
  assumes "inBounds (current s) i j" and "inBounds (nextg s) i j"
  shows "loopBody s i j =
     Inr (s\<lparr>nextg := putCell (nextg s) i j (nextCell (current s) i j),
            display := drawCellAt (display s) i j
              (cellAt (putCell (nextg s) i j (nextCell (current s) i j)) i j)\<rparr>)"
proof -
  have a: "assignNext s i j v =
      Inr (s\<lparr>nextg := putCell (nextg s) i j v\<rparr>)" for v
    using assms by (simp add: assignNext_def gridSet_def)
  have g: "ageCell s i j =
      Inr (s\<lparr>nextg := putCell (nextg s) i j (addInt (cellAt (current s) i j) 1)\<rparr>)"
    using assms by (simp add: ageCell_def gridGet_def a)
  have e: "isEmpty (current s) i j = Inr (cellAt (current s) i j = 0)"
    using assms by (simp add: isEmpty_def gridGet_def)
  show ?thesis
    unfolding loopBody_def isNumNeighboursCorrect_eq a g e nextCell_def cellRule_def
    using assms by (simp add: gridGet_def)
qed

lemma wrapInt_range: "INT_MIN \<le> wrapInt x \<and> wrapInt x \<le> INT_MAX"
proof -
  have "0 \<le> (x + 2147483648) mod 4294967296" "(x + 2147483648) mod 4294967296 < 4294967296"
    by simp_all
  then show ?thesis
    by (simp add: wrapInt_def INT_MIN_def INT_MAX_def)
qed

lemma wrapInt_id: "INT_MIN \<le> x \<Longrightarrow> x \<le> INT_MAX \<Longrightarrow> wrapInt x = x"
  by (simp add: wrapInt_def INT_MIN_def INT_MAX_def)

lemma addInt_below: "INT_MIN \<le> v \<Longrightarrow> v < INT_MAX \<Longrightarrow> addInt v 1 = v + 1"
  by (simp add: addInt_def wrapInt_id INT_MIN_def INT_MAX_def)

lemma wf_grid_nth:
  "wf_grid g \<longleftrightarrow>
     0 \<le> numRows g \<and> 0 \<le> numCols g \<and> length (elements g) = nat (numRows g) \<and>
     (\<forall>r < nat (numRows g). length (elements g ! r) = nat (numCols g) \<and>
        (\<forall>c < nat (numCols g). INT_MIN \<le> elements g ! r ! c \<and> elements g ! r ! c \<le> INT_MAX))"
  by (auto simp: wf_grid_def list_all_length)

lemma numRows_putCell [simp]: "numRows (putCell g i j v) = numRows g"
  by (simp add: putCell_def)

lemma numCols_putCell [simp]: "numCols (putCell g i j v) = numCols g"
  by (simp add: putCell_def)

lemma wf_grid_putCell:
  assumes "wf_grid g" and "INT_MIN \<le> v" and "v \<le> INT_MAX"
  shows "wf_grid (putCell g i j v)"
proof -
  let ?h = "putCell g i j v"
  have len: "length (elements ?h) = nat (numRows g)"
    using assms(1) by (simp add: putCell_def wf_grid_nth)
  have row: "length (elements ?h ! r) = nat (numCols g) \<and>
      (\<forall>c < nat (numCols g). INT_MIN \<le> elements ?h ! r ! c \<and> elements ?h ! r ! c \<le> INT_MAX)"
    if r: "r < nat (numRows g)" for r
  proof (cases "r = nat i")
    case False
    with r assms(1) show ?thesis by (simp add: putCell_def wf_grid_nth)
  next
    case True
    with r assms(1) have e: "elements ?h ! r = (elements g ! r)[nat j := v]"
      by (simp add: putCell_def wf_grid_nth)
    from r assms(1) have l: "length (elements g ! r) = nat (numCols g)"
      by (simp add: wf_grid_nth)
    from r assms(1) have b: "\<forall>c < nat (numCols g). INT_MIN \<le> elements g ! r ! c \<and> elements g ! r ! c \<le> INT_MAX"
      by (simp add: wf_grid_nth)
    have "INT_MIN \<le> (elements g ! r)[nat j := v] ! c \<and> (elements g ! r)[nat j := v] ! c \<le> INT_MAX"
      if "c < nat (numCols g)" for c
      using that l b assms(2,3) by (cases "c = nat j") simp_all
    with l show ?thesis
      unfolding e by simp
  qed
  from assms(1) have "0 \<le> numRows g" "0 \<le> numCols g"
    by (simp_all add: wf_grid_nth)
  with len row show ?thesis
    by (simp add: wf_grid_nth)
qed

lemma cellAt_putCell:
  assumes "wf_grid g" and "inBounds g i j" and "inBounds g r c"
  shows "cellAt (putCell g i j v) r c = (if r = i \<and> c = j then v else cellAt g r c)"
  using assms unfolding wf_grid_nth inBounds_def
  by (auto simp: putCell_def cellAt_def nth_list_update)

lemma grid_eqI:
  assumes "wf_grid g" and "wf_grid h"
    and "numRows g = numRows h" and "numCols g = numCols h"
    and "\<And>r c. inBounds g r c \<Longrightarrow> cellAt g r c = cellAt h r c"
  shows "g = h"
proof -
  have "elements g = elements h"
  proof (rule nth_equalityI)
    show "length (elements g) = length (elements h)"
      using assms by (simp add: wf_grid_nth)
  next
    fix r assume r: "r < length (elements g)"
    then have rr: "r < nat (numRows g)" using assms(1) by (simp add: wf_grid_nth)
    show "elements g ! r = elements h ! r"
    proof (rule nth_equalityI)
      show "length (elements g ! r) = length (elements h ! r)"
        using assms(1-4) rr by (simp add: wf_grid_nth)
    next
      fix c assume "c < length (elements g ! r)"
      then have cc: "c < nat (numCols g)" using assms(1) rr by (simp add: wf_grid_nth)
      have "inBounds g (int r) (int c)"
        using rr cc by (simp add: inBounds_def) arith
      from assms(5) [OF this] show "elements g ! r ! c = elements h ! r ! c"
        by (simp add: cellAt_def)
    qed
  qed
  with assms(3,4) show ?thesis by simp
qed

lemma resize_ok:
  assumes "0 \<le> m" and "0 \<le> n"
  shows "\<exists>g. resize m n = Inr g \<and> wf_grid g \<and> numRows g = m \<and> numCols g = n \<and>
           (\<forall>r c. inBounds g r c \<longrightarrow> cellAt g r c = 0)"
  using assms
  by (auto simp: resize_def wf_grid_nth inBounds_def cellAt_def INT_MIN_def INT_MAX_def)

lemma cellRule_range: "INT_MIN \<le> cellRule v n \<and> cellRule v n \<le> INT_MAX"
  using wrapInt_range [of "v + 1"]
  by (simp add: cellRule_def addInt_def INT_MIN_def INT_MAX_def)

subsection \<open>Walking over the cells\<close>

lemma cellSteps_current: "cellSteps s ps = Inr s' \<Longrightarrow> current s' = current s"
proof (induction ps arbitrary: s)
  case Nil
  then show ?case by simp
next
  case (Cons p ps)
  obtain i j where p: "p = (i, j)" by (cases p)
  from Cons.prems obtain s1 where b: "loopBody s i j = Inr s1" and r: "cellSteps s1 ps = Inr s'"
    by (auto simp: p split: sum.splits)
  from Cons.IH [OF r] loopBody_current [OF b] show ?case by simp
qed

lemma cellSteps_append:
  "cellSteps s (ps @ qs) = (case cellSteps s ps of Inl e \<Rightarrow> Inl e | Inr s' \<Rightarrow> cellSteps s' qs)"
proof (induction ps arbitrary: s)
  case Nil
  show ?case by simp
next
  case (Cons p ps)
  obtain i j where p: "p = (i, j)" by (cases p)
  show ?case
    by (cases "loopBody s i j") (simp_all add: p Cons.IH)
qed

lemma colLoop_eq: "colLoop s i j = cellSteps s (rowPositions (current s) i j)"
proof (induction s i j rule: colLoop.induct)
  case (1 s i j)
  show ?case
  proof (cases "j < numCols (current s)")
    case False
    then show ?thesis
      by (subst colLoop.simps) (simp add: rowPositions_def)
  next
    case True
    then have u: "rowPositions (current s) i j = (i, j) # rowPositions (current s) i (j + 1)"
      by (simp add: rowPositions_def upto_rec1)
    show ?thesis
    proof (cases "loopBody s i j")
      case (Inl e)
      then show ?thesis using True
        by (subst colLoop.simps) (simp add: u)
    next
      case (Inr s1)
      from "1.IH" [OF True Inr] loopBody_current [OF Inr]
      have "colLoop s1 i (j + 1) = cellSteps s1 (rowPositions (current s) i (j + 1))"
        by (simp add: rowPositions_def)
      with Inr True show ?thesis
        by (subst colLoop.simps) (simp add: u)
    qed
  qed
qed

lemma rowLoop_eq: "rowLoop s i = cellSteps s (positionsFrom (current s) i)"
proof (induction s i rule: rowLoop.induct)
  case (1 s i)
  show ?case
  proof (cases "i < numRows (current s)")
    case False
    then show ?thesis
      by (subst rowLoop.simps) (simp add: positionsFrom_def)
  next
    case True
    then have u: "positionsFrom (current s) i =
        rowPositions (current s) i 0 @ positionsFrom (current s) (i + 1)"
      by (simp add: positionsFrom_def upto_rec1)
    show ?thesis
    proof (cases "colLoop s i 0")
      case (Inl e)
      then show ?thesis using True
        by (subst rowLoop.simps) (simp add: u cellSteps_append colLoop_eq [symmetric])
    next
      case (Inr s1)
      from "1.IH" [OF True Inr] colLoop_current [OF Inr]
      have "rowLoop s1 (i + 1) = cellSteps s1 (positionsFrom (current s) (i + 1))"
        by (simp add: positionsFrom_def rowPositions_def)
      with Inr True show ?thesis
        by (subst rowLoop.simps) (simp add: u cellSteps_append colLoop_eq [symmetric])
    qed
  qed
qed

lemma cellSteps_Inr:
  assumes "wf_grid (nextg s)" and "sameSize (nextg s) (current s)"
    and "\<And>i j. (i, j) \<in> set ps \<Longrightarrow> inBounds (current s) i j"
    and "cellSteps s ps = Inr s'"
  shows "wf_grid (nextg s') \<and> sameSize (nextg s') (current s) \<and>
         (\<forall>r c. inBounds (current s) r c \<longrightarrow>
            cellAt (nextg s') r c =
              (if (r, c) \<in> set ps then nextCell (current s) r c else cellAt (nextg s) r c))"
  using assms
proof (induction ps arbitrary: s)
  case Nil
  then show ?case by simp
next
  case (Cons p ps)
  obtain i j where p: "p = (i, j)" by (cases p)
  have ci: "inBounds (current s) i j"
    using Cons.prems(3) [of i j] by (simp add: p)
  with Cons.prems(2) have ni: "inBounds (nextg s) i j"
    by (simp add: inBounds_def sameSize_def)
  define v where "v = nextCell (current s) i j"
  define s1 where "s1 = s\<lparr>nextg := putCell (nextg s) i j v,
      display := drawCellAt (display s) i j (cellAt (putCell (nextg s) i j v) i j)\<rparr>"
  have b: "loopBody s i j = Inr s1"
    by (simp add: loopBody_eq [OF ci ni] s1_def v_def)
  with Cons.prems(4) have r: "cellSteps s1 ps = Inr s'"
    by (simp add: p)
  have vr: "INT_MIN \<le> v" "v \<le> INT_MAX"
    using cellRule_range by (simp_all add: v_def nextCell_def)
  have c1: "current s1 = current s" and n1: "nextg s1 = putCell (nextg s) i j v"
    by (simp_all add: s1_def)
  have w1: "wf_grid (nextg s1)"
    unfolding n1 using Cons.prems(1) vr by (rule wf_grid_putCell)
  have z1: "sameSize (nextg s1) (current s1)"
    using Cons.prems(2) by (simp add: n1 c1 sameSize_def)
  have b1: "\<And>a b. (a, b) \<in> set ps \<Longrightarrow> inBounds (current s1) a b"
    using Cons.prems(3) by (simp add: c1 p)
  from Cons.IH [OF w1 z1 b1 r]
  have ih: "wf_grid (nextg s')" "sameSize (nextg s') (current s)"
    "\<And>r c. inBounds (current s) r c \<Longrightarrow>
       cellAt (nextg s') r c =
         (if (r, c) \<in> set ps then nextCell (current s) r c else cellAt (nextg s1) r c)"
    unfolding c1 by blast+
  have "cellAt (nextg s') r c =
      (if (r, c) \<in> set (p # ps) then nextCell (current s) r c else cellAt (nextg s) r c)"
    if rc: "inBounds (current s) r c" for r c
  proof -
    from rc Cons.prems(2) have nrc: "inBounds (nextg s) r c"
      by (simp add: inBounds_def sameSize_def)
    have put: "cellAt (nextg s1) r c = (if r = i \<and> c = j then v else cellAt (nextg s) r c)"
      unfolding n1 using Cons.prems(1) ni nrc by (rule cellAt_putCell)
    show ?thesis
      using ih(3) [OF rc] put by (auto simp: p v_def)
  qed
  with ih(1,2) show ?case by blast
qed

lemma cellSteps_total:
  assumes "wf_grid (nextg s)" and "sameSize (nextg s) (current s)"
    and "\<And>i j. (i, j) \<in> set ps \<Longrightarrow> inBounds (current s) i j"
  shows "\<exists>s'. cellSteps s ps = Inr s'"
  using assms
proof (induction ps arbitrary: s)
  case Nil
  then show ?case by simp
next
  case (Cons p ps)
  obtain i j where p: "p = (i, j)" by (cases p)
  have ci: "inBounds (current s) i j"
    using Cons.prems(3) [of i j] by (simp add: p)
  with Cons.prems(2) have ni: "inBounds (nextg s) i j"
    by (simp add: inBounds_def sameSize_def)
  from loopBody_eq [OF ci ni] obtain s1 where b: "loopBody s i j = Inr s1"
    by blast
  then have one: "cellSteps s [(i, j)] = Inr s1" by simp
  have b0: "\<And>a b. (a, b) \<in> set [(i, j)] \<Longrightarrow> inBounds (current s) a b"
    using ci by simp
  from cellSteps_Inr [OF Cons.prems(1,2) b0 one] cellSteps_current [OF one]
  have w1: "wf_grid (nextg s1)" and z1: "sameSize (nextg s1) (current s1)"
    and c1: "current s1 = current s"
    by simp_all
  have b1: "\<And>a b. (a, b) \<in> set ps \<Longrightarrow> inBounds (current s1) a b"
    using Cons.prems(3) by (simp add: c1 p)
  from Cons.IH [OF w1 z1 b1] b show ?case
    by (simp add: p)
qed

subsection \<open>What \<^verbatim>\<open>computeNext\<close> returns\<close>

lemma set_positions: "(i, j) \<in> set (positions g) \<longleftrightarrow> inBounds g i j"
  by (auto simp: positions_def positionsFrom_def rowPositions_def inBounds_def image_iff)

lemma computeNext_eq:
  "computeNext s =
     bindE (resize (numRows (current s)) (numCols (current s)))
       (\<lambda>g. cellSteps (s\<lparr>nextg := g\<rparr>) (positions (current s)))"
  by (simp add: computeNext_def rowLoop_eq positions_def)

lemma computeNext_negative:
  "numRows (current s) < 0 \<or> numCols (current s) < 0 \<Longrightarrow> computeNext s = Inl InvalidDimension"
  by (auto simp: computeNext_def resize_def)

lemma computeNext_steps:
  assumes "0 \<le> numRows (current s)" and "0 \<le> numCols (current s)"
  obtains g where "resize (numRows (current s)) (numCols (current s)) = Inr g"
    and "wf_grid g" and "sameSize g (current s)"
    and "computeNext s = cellSteps (s\<lparr>nextg := g\<rparr>) (positions (current s))"
proof -
  from resize_ok [OF assms] obtain g where
    g: "resize (numRows (current s)) (numCols (current s)) = Inr g" "wf_grid g"
      "numRows g = numRows (current s)" "numCols g = numCols (current s)"
    by blast
  show ?thesis
    by (rule that [of g]) (simp_all add: g computeNext_eq sameSize_def)
qed

lemma computeNext_Inr:
  assumes "0 \<le> numRows (current s)" and "0 \<le> numCols (current s)"
    and "computeNext s = Inr s'"
  shows "current s' = current s" and "wf_grid (nextg s')" and "sameSize (nextg s') (current s)"
    and "inBounds (current s) i j \<Longrightarrow> cellAt (nextg s') i j = nextCell (current s) i j"
proof -
  from computeNext_steps [OF assms(1,2)] obtain g where
    g: "wf_grid g" "sameSize g (current s)"
      "computeNext s = cellSteps (s\<lparr>nextg := g\<rparr>) (positions (current s))"
    by metis
  let ?t = "s\<lparr>nextg := g\<rparr>"
  have st: "cellSteps ?t (positions (current ?t)) = Inr s'"
    using g(3) assms(3) by simp
  have w: "wf_grid (nextg ?t)" using g(1) by simp
  have z: "sameSize (nextg ?t) (current ?t)" using g(2) by simp
  have b: "\<And>a b. (a, b) \<in> set (positions (current ?t)) \<Longrightarrow> inBounds (current ?t) a b"
    by (simp add: set_positions)
  from cellSteps_current [OF st] show "current s' = current s" by simp
  from cellSteps_Inr [OF w z b st]
  have r: "wf_grid (nextg s')" "sameSize (nextg s') (current s)"
    "\<And>r c. inBounds (current s) r c \<Longrightarrow> cellAt (nextg s') r c = nextCell (current s) r c"
    by (simp_all add: set_positions)
  from r(1) show "wf_grid (nextg s')" .
  from r(2) show "sameSize (nextg s') (current s)" .
  from r(3) show "inBounds (current s) i j \<Longrightarrow> cellAt (nextg s') i j = nextCell (current s) i j" .
qed

lemma computeNext_returns:
  assumes "0 \<le> numRows (current s)" and "0 \<le> numCols (current s)"
  shows "\<exists>s'. computeNext s = Inr s'"
proof -
  from computeNext_steps [OF assms(1,2)] obtain g where
    g: "wf_grid g" "sameSize g (current s)"
      "computeNext s = cellSteps (s\<lparr>nextg := g\<rparr>) (positions (current s))"
    by metis
  let ?t = "s\<lparr>nextg := g\<rparr>"
  have w: "wf_grid (nextg ?t)" using g(1) by simp
  have z: "sameSize (nextg ?t) (current ?t)" using g(2) by simp
  have b: "\<And>a b. (a, b) \<in> set (positions (current ?t)) \<Longrightarrow> inBounds (current ?t) a b"
    by (simp add: set_positions)
  from cellSteps_total [OF w z b] g(3) show ?thesis
    by simp
qed

subsection \<open>Properties of all cells\<close>

lemma all_cells:
  assumes "wf_grid g"
  shows "list_all (list_all P) (elements g) \<longleftrightarrow> (\<forall>r c. inBounds g r c \<longrightarrow> P (cellAt g r c))"
proof
  assume a: "list_all (list_all P) (elements g)"
  show "\<forall>r c. inBounds g r c \<longrightarrow> P (cellAt g r c)"
  proof (intro allI impI)
    fix r c assume b: "inBounds g r c"
    with assms have "nat r < length (elements g)" "nat c < length (elements g ! nat r)"
      by (simp_all add: wf_grid_nth inBounds_def)
    with a show "P (cellAt g r c)"
      by (simp add: list_all_length cellAt_def)
  qed
next
  assume a: "\<forall>r c. inBounds g r c \<longrightarrow> P (cellAt g r c)"
  have "P (elements g ! n ! m)" if n: "n < length (elements g)" and m: "m < length (elements g ! n)" for n m
  proof -
    from n m assms have "n < nat (numRows g)" "m < nat (numCols g)"
      by (simp_all add: wf_grid_nth)
    then have "inBounds g (int n) (int m)"
      by (simp add: inBounds_def) arith
    with a have "P (cellAt g (int n) (int m))" by blast
    then show ?thesis by (simp add: cellAt_def)
  qed
  then show "list_all (list_all P) (elements g)"
    by (simp add: list_all_length)
qed

lemma square2_next:
  "computeNext (initial (square2 1)) =
     Inr \<lparr>display = [DrawCellAt 0 0 2, DrawCellAt 0 1 2, DrawCellAt 1 0 2, DrawCellAt 1 1 2],
          current = square2 1, nextg = square2 2\<rparr>"
  by code_simp

lemma block4_next:
  "map_sum id nextg (computeNext (initial (block4 1))) = Inr (block4 2)"
  by code_simp

lemma wf_dims: "wf_grid g \<Longrightarrow> 0 \<le> numRows g \<and> 0 \<le> numCols g"
  by (simp add: wf_grid_def)

lemma inBounds_sameSize: "sameSize h g \<Longrightarrow> inBounds h i j = inBounds g i j"
  by (simp add: sameSize_def inBounds_def)

lemma cellRule_cases:
  "(v = 0 \<and> n = 3 \<and> cellRule v n = 1) \<or>
   (v \<noteq> 0 \<and> (n = 2 \<or> n = 3) \<and> cellRule v n = addInt v 1) \<or>
   (\<not> (v = 0 \<and> n = 3) \<and> \<not> (v \<noteq> 0 \<and> (n = 2 \<or> n = 3)) \<and> cellRule v n = 0)"
  by (auto simp: cellRule_def)

subsection \<open>The rule table\<close>

lemma length_filter_sum:
  "int (length (filter P xs)) = sum_list (map (\<lambda>x. if P x then 1 else 0) xs)"
  by (induction xs) simp_all

lemma occupied_alive:
  assumes "wf_grid g" and "nonNegative g"
  shows "occupied g x y = (if inBounds g x y \<and> 0 < cellAt g x y then 1 else 0)"
proof (cases "inBounds g x y")
  case False
  then show ?thesis by (simp add: occupied_def)
next
  case True
  with assms have "0 \<le> cellAt g x y"
    by (simp add: nonNegative_def all_cells)
  with True show ?thesis by (auto simp: occupied_def)
qed

lemma countNeighbours_alive:
  assumes "wf_grid g" and "nonNegative g"
  shows "countNeighbours g row col = aliveNeighbours g row col"
  unfolding countNeighbours_def aliveNeighbours_def neighbourOffsets_def length_filter_sum
    occupied_alive [OF assms]
  by simp

lemma countNeighbours_range: "0 \<le> countNeighbours g row col \<and> countNeighbours g row col \<le> 8"
  by (simp add: countNeighbours_def occupied_def)

lemma cellRule_ruleTable:
  assumes "0 \<le> v" and "v < INT_MAX" and "0 \<le> n"
  shows "cellRule v n = ruleTable v n"
proof -
  from assms(1) have "INT_MIN \<le> v" by (simp add: INT_MIN_def)
  from addInt_below [OF this assms(2)] assms(1,3) show ?thesis
    by (auto simp: cellRule_def ruleTable_def)
qed

subsection \<open>The range of the cells\<close>

lemma wf_range:
  assumes "wf_grid g" and "inBounds g i j"
  shows "INT_MIN \<le> cellAt g i j \<and> cellAt g i j \<le> INT_MAX"
proof -
  from assms(1) have "list_all (list_all (\<lambda>v. INT_MIN \<le> v \<and> v \<le> INT_MAX)) (elements g)"
    by (auto simp: wf_grid_def list_all_iff)
  with assms show ?thesis
    by (simp add: all_cells)
qed


lemma computeNext_total:
  assumes "wf_grid (current s)"
  shows "\<exists>s'. computeNext s = Inr s'"
  using computeNext_returns [of s] wf_dims [OF assms] by simp

lemma square2_overflow:
  "map_sum id nextg (computeNext (initial (square2 2147483647))) = Inr (square2 (- 2147483648))"
  by code_simp

subsection \<open>Ages over the generations\<close>






lemma square2_step:
  assumes "0 < a" and "a < INT_MAX"
  shows "map_sum id nextg (computeNext (initial (square2 a))) = Inr (square2 (a + 1))"
proof -
  from assms have "addInt a 1 = a + 1"
    by (simp add: addInt_below INT_MIN_def)
  with assms show ?thesis
    by (simp add: computeNext_def resize_def rowLoop.simps colLoop.simps loopBody_eq inBounds_def
        countNeighbours_def occupied_def nextCell_def cellRule_def putCell_def cellAt_def
        drawCellAt_def initial_def square2_def numeral_2_eq_2)
qed

lemma square2_backwards:
  "cellSteps ((initial (square2 1))\<lparr>nextg := square2 0\<rparr>) [(1, 1), (1, 0), (0, 1), (0, 0)] =
     Inr \<lparr>display = [DrawCellAt 1 1 2, DrawCellAt 1 0 2, DrawCellAt 0 1 2, DrawCellAt 0 0 2],
          current = square2 1, nextg = square2 2\<rparr>"
  by code_simp

subsection \<open>The block\<close>

lemma block_count_inside:
  assumes "inBlock r c i j"
  shows "ind (inBlock r c (i - 1) (j - 1)) + ind (inBlock r c (i - 1) j) +
         ind (inBlock r c (i - 1) (j + 1)) + ind (inBlock r c i (j - 1)) +
         ind (inBlock r c i (j + 1)) + ind (inBlock r c (i + 1) (j - 1)) +
         ind (inBlock r c (i + 1) j) + ind (inBlock r c (i + 1) (j + 1)) = 3"
  using assms by (auto simp: inBlock_def ind_def)

lemma block_count_outside:
  assumes "\<not> inBlock r c i j"
  shows "ind (inBlock r c (i - 1) (j - 1)) + ind (inBlock r c (i - 1) j) +
         ind (inBlock r c (i - 1) (j + 1)) + ind (inBlock r c i (j - 1)) +
         ind (inBlock r c i (j + 1)) + ind (inBlock r c (i + 1) (j - 1)) +
         ind (inBlock r c (i + 1) j) + ind (inBlock r c (i + 1) (j + 1)) \<noteq> 3"
proof -
  consider "i < r - 1 \<or> r + 2 < i" | "i = r - 1" | "i = r" | "i = r + 1" | "i = r + 2"
    by linarith
  then show ?thesis
  proof cases
    case 1
    then show ?thesis by (auto simp: inBlock_def ind_def)
  next
    case 2
    then show ?thesis by (auto simp: inBlock_def ind_def)
  next
    case 3
    with assms show ?thesis by (auto simp: inBlock_def ind_def)
  next
    case 4
    with assms show ?thesis by (auto simp: inBlock_def ind_def)
  next
    case 5
    then show ?thesis by (auto simp: inBlock_def ind_def)
  qed
qed

lemma isBlock_cells:
  assumes "isBlock r c a g" and "inBounds g i j"
  shows "cellAt g i j = (if inBlock r c i j then a else 0)"
proof -
  from assms(2) have "(i, j) \<in> set (positions g)"
    by (simp add: set_positions)
  with assms(1) show ?thesis
    by (auto simp: isBlock_def list_all_iff)
qed

lemma inBlock_inBounds:
  assumes "isBlock r c a g" and "inBlock r c i j"
  shows "inBounds g i j"
  using assms by (auto simp: isBlock_def inBlock_def inBounds_def)

lemma block_occupied:
  assumes "isBlock r c a g" and "a \<noteq> 0"
  shows "occupied g x y = ind (inBlock r c x y)"
proof (cases "inBounds g x y")
  case False
  with inBlock_inBounds [OF assms(1)] have "\<not> inBlock r c x y" by blast
  with False show ?thesis by (simp add: occupied_def ind_def)
next
  case True
  from isBlock_cells [OF assms(1) True] True assms(2) show ?thesis
    by (simp add: occupied_def ind_def)
qed

lemma block_nextCell:
  assumes "isBlock r c 1 g" and "inBounds g i j"
  shows "nextCell g i j = (if inBlock r c i j then 2 else 0)"
proof -
  have o: "occupied g x y = ind (inBlock r c x y)" for x y
    using block_occupied [OF assms(1)] by simp
  show ?thesis
  proof (cases "inBlock r c i j")
    case True
    from block_count_inside [OF True] have "countNeighbours g i j = 3"
      by (simp add: countNeighbours_def o)
    with True isBlock_cells [OF assms] show ?thesis
      by (simp add: nextCell_def cellRule_def addInt_def wrapInt_def)
  next
    case False
    from block_count_outside [OF False] have "countNeighbours g i j \<noteq> 3"
      by (simp add: countNeighbours_def o)
    with False isBlock_cells [OF assms] show ?thesis
      by (simp add: nextCell_def cellRule_def)
  qed
qed

subsection \<open>The animation loop after a mouse press\<close>

lemma runAnimation_press:
  assumes "getEventClass ev \<noteq> TIMER_EVENT" and "getEventType ev = MOUSE_PRESSED"
    and "runAnimation s before = Inr (Running, s1)"
  shows "runAnimation s (before @ ev # after) = Inr (Stopped, s1)"
  using assms(3)
proof (induction before arbitrary: s)
  case Nil
  with assms(1,2) show ?case by simp
next
  case (Cons e es)
  show ?case
  proof (cases "getEventClass e = TIMER_EVENT")
    case True
    with Cons.prems obtain s' where a: "advance s = Inr s'"
      and r: "runAnimation s' es = Inr (Running, s1)"
      by (auto split: sum.splits)
    from Cons.IH [OF r] a True show ?thesis by simp
  next
    case False
    with Cons.prems have p: "getEventType e \<noteq> MOUSE_PRESSED"
      by (auto split: if_splits)
    with Cons.prems False have "runAnimation s es = Inr (Running, s1)"
      by simp
    from Cons.IH [OF this] False p show ?thesis by simp
  qed
qed

lemma runAnimation_stopped:
  assumes "runAnimation s before = Inr (Stopped, s1)"
  shows "runAnimation s (before @ after) = Inr (Stopped, s1)"
  using assms
proof (induction before arbitrary: s)
  case Nil
  then show ?case by simp
next
  case (Cons e es)
  show ?case
  proof (cases "getEventClass e = TIMER_EVENT")
    case True
    with Cons.prems obtain s' where a: "advance s = Inr s'"
      and r: "runAnimation s' es = Inr (Stopped, s1)"
      by (auto split: sum.splits)
    from Cons.IH [OF r] a True show ?thesis by simp
  next
    case False
    show ?thesis
    proof (cases "getEventType e = MOUSE_PRESSED")
      case True
      with False Cons.prems show ?thesis by simp
    next
      case p: False
      with Cons.prems False have "runAnimation s es = Inr (Stopped, s1)"
        by simp
      from Cons.IH [OF this] False p show ?thesis by simp
    qed
  qed
qed

lemma two_ticks:
  "runAnimation (initial (square2 1)) [timerTick, timerTick] = Inr (Running, afterTwoTicks)"
  by code_simp

section \<open>The claims\<close>

text \<open>
  C6. A \<open>1 \<times> 1\<close> grid whose only cell is alive with age 1: \<^verbatim>\<open>computeNext\<close> returns, and
  \<^verbatim>\<open>next\<close> is the \<open>1 \<times> 1\<close> grid whose only cell is 0. The cell has no neighbour inside the
  grid, so the first test of the chain holds. This is so whatever \<^verbatim>\<open>next\<close> and the display
  held before; the display receives the one call \<^verbatim>\<open>drawCellAt(0, 0, 0)\<close>.
\<close>

theorem single_cell_dies:
  "computeNext \<lparr>display = d, current = \<lparr>numRows = 1, numCols = 1, elements = [[1]]\<rparr>,
                 nextg = g\<rparr> =
     Inr \<lparr>display = d @ [DrawCellAt 0 0 0],
          current = \<lparr>numRows = 1, numCols = 1, elements = [[1]]\<rparr>,
          nextg = \<lparr>numRows = 1, numCols = 1, elements = [[0]]\<rparr>\<rparr>"
  by (simp add: computeNext_def resize_def rowLoop.simps colLoop.simps loopBody_eq inBounds_def
      countNeighbours_def occupied_def nextCell_def cellRule_def putCell_def cellAt_def
      drawCellAt_def)

text \<open>
  C5. Whenever \<^verbatim>\<open>computeNext\<close> produces a grid from a well-formed \<^verbatim>\<open>current\<close>, the
  grid has as many rows and as many columns as \<^verbatim>\<open>current\<close>, and its list of rows has
  that shape.
\<close>

theorem same_dimensions:
  assumes "wf_grid (current s)" and "computeNext s = Inr s'"
  shows "numRows (nextg s') = numRows (current s) \<and> numCols (nextg s') = numCols (current s) \<and>
         wf_grid (nextg s')"
proof -
  from wf_dims [OF assms(1)] have d: "0 \<le> numRows (current s)" "0 \<le> numCols (current s)"
    by simp_all
  from computeNext_Inr(2,3) [OF d assms(2)] show ?thesis
    by (simp add: sameSize_def)
qed

theorem same_dimensions_witness:
  "wf_grid (current (initial (square2 1))) \<and>
   computeNext (initial (square2 1)) =
     Inr \<lparr>display = [DrawCellAt 0 0 2, DrawCellAt 0 1 2, DrawCellAt 1 0 2, DrawCellAt 1 1 2],
          current = square2 1, nextg = square2 2\<rparr> \<and>
   numRows (square2 2) = 2 \<and> numCols (square2 2) = 2 \<and> wf_grid (square2 2)"
proof -
  have w: "wf_grid (current (initial (square2 1)))"
    by code_simp
  from same_dimensions [OF w square2_next] w square2_next show ?thesis
    by (simp add: initial_def square2_def)
qed

text \<open>
  C10, as stated, fails where the addition wraps. In a \<open>2 \<times> 2\<close> colony whose cells all hold
  the largest \<^verbatim>\<open>int\<close> every cell has three neighbours and survives; \<^verbatim>\<open>computeNext\<close> writes
  \<^verbatim>\<open>current[i][j] + 1\<close>, which is the smallest \<^verbatim>\<open>int\<close>. No cell of the input is negative
  and every cell of the output is; the output cell is neither 0, nor 1, nor the input
  cell plus one.
\<close>

theorem overflow_goes_negative:
  "wf_grid (current (initial (square2 2147483647))) \<and>
   nonNegative (current (initial (square2 2147483647))) \<and>
   inBounds (current (initial (square2 2147483647))) 0 0 \<and>
   map_sum id nextg (computeNext (initial (square2 2147483647))) =
     Inr (square2 (- 2147483648)) \<and>
   \<not> nonNegative (square2 (- 2147483648)) \<and>
   cellAt (square2 (- 2147483648)) 0 0 \<noteq> 0 \<and> cellAt (square2 (- 2147483648)) 0 0 \<noteq> 1 \<and>
   cellAt (square2 (- 2147483648)) 0 0 \<noteq> cellAt (square2 2147483647) 0 0 + 1"
proof -
  have "wf_grid (current (initial (square2 2147483647)))"
    by code_simp
  moreover have "nonNegative (current (initial (square2 2147483647)))"
    by code_simp
  moreover have "inBounds (current (initial (square2 2147483647))) 0 0"
    by code_simp
  moreover have "\<not> nonNegative (square2 (- 2147483648))"
    by code_simp
  moreover have "cellAt (square2 (- 2147483648)) 0 0 = - 2147483648"
    "cellAt (square2 2147483647) 0 0 = 2147483647"
    by (simp_all add: square2_def cellAt_def)
  ultimately show ?thesis
    using square2_overflow by simp
qed

text \<open>
  C10, amended. \<^verbatim>\<open>computeNext\<close> produces a grid from every well-formed \<^verbatim>\<open>current\<close>. A
  cell of it whose value in \<^verbatim>\<open>current\<close> is below the largest \<^verbatim>\<open>int\<close> is 0, or 1, or that
  value plus one; if it is not 0, it is a birth (the cell was 0 and is 1) or has aged by
  exactly one. If no cell of \<^verbatim>\<open>current\<close> is negative and none holds the largest \<^verbatim>\<open>int\<close>, no
  cell of the result is negative.
\<close>

theorem step_values:
  assumes "wf_grid (current s)" and "inBounds (current s) i j"
    and "cellAt (current s) i j < INT_MAX"
  shows "\<exists>s'. computeNext s = Inr s' \<and>
           (cellAt (nextg s') i j = 0 \<or> cellAt (nextg s') i j = 1 \<or>
            cellAt (nextg s') i j = cellAt (current s) i j + 1) \<and>
           (nonNegative (current s) \<and> belowIntMax (current s) \<longrightarrow> nonNegative (nextg s')) \<and>
           (cellAt (nextg s') i j \<noteq> 0 \<longrightarrow>
              cellAt (current s) i j = 0 \<and> cellAt (nextg s') i j = 1 \<or>
              cellAt (current s) i j \<noteq> 0 \<and>
              cellAt (nextg s') i j = cellAt (current s) i j + 1)"
proof -
  from wf_dims [OF assms(1)] have d: "0 \<le> numRows (current s)" "0 \<le> numCols (current s)"
    by simp_all
  from computeNext_total [OF assms(1)] obtain s' where s': "computeNext s = Inr s'"
    by blast
  note r = computeNext_Inr [OF d s']
  have c: "cellAt (nextg s') a b =
      cellRule (cellAt (current s) a b) (countNeighbours (current s) a b)"
    if "inBounds (current s) a b" for a b
    using r(4) [OF that] by (simp add: nextCell_def)
  have inc: "addInt (cellAt (current s) a b) 1 = cellAt (current s) a b + 1"
    if "inBounds (current s) a b" and "cellAt (current s) a b < INT_MAX" for a b
    using wf_range [OF assms(1) that(1)] that(2) by (simp add: addInt_below)
  have nn: "nonNegative (nextg s')" if n: "nonNegative (current s)" and m: "belowIntMax (current s)"
  proof -
    have "0 \<le> cellAt (nextg s') a b" if ab: "inBounds (nextg s') a b" for a b
    proof -
      from ab r(3) have ab': "inBounds (current s) a b" by (simp add: inBounds_sameSize)
      with n assms(1) have 0: "0 \<le> cellAt (current s) a b"
        by (simp add: nonNegative_def all_cells)
      from ab' m assms(1) have "cellAt (current s) a b < INT_MAX"
        by (simp add: belowIntMax_def all_cells)
      from inc [OF ab' this] 0 c [OF ab']
        cellRule_cases [of "cellAt (current s) a b" "countNeighbours (current s) a b"]
      show ?thesis by auto
    qed
    with r(2) show ?thesis by (simp add: nonNegative_def all_cells)
  qed
  from inc [OF assms(2,3)] c [OF assms(2)]
    cellRule_cases [of "cellAt (current s) i j" "countNeighbours (current s) i j"]
  have "(cellAt (nextg s') i j = 0 \<or> cellAt (nextg s') i j = 1 \<or>
          cellAt (nextg s') i j = cellAt (current s) i j + 1) \<and>
        (cellAt (nextg s') i j \<noteq> 0 \<longrightarrow>
           cellAt (current s) i j = 0 \<and> cellAt (nextg s') i j = 1 \<or>
           cellAt (current s) i j \<noteq> 0 \<and>
           cellAt (nextg s') i j = cellAt (current s) i j + 1)"
    by auto
  with s' nn show ?thesis by blast
qed

theorem step_values_witness:
  "wf_grid (current (initial (square2 1))) \<and> inBounds (current (initial (square2 1))) 0 1 \<and>
   cellAt (current (initial (square2 1))) 0 1 < INT_MAX \<and>
   nonNegative (current (initial (square2 1))) \<and> belowIntMax (current (initial (square2 1))) \<and>
   computeNext (initial (square2 1)) =
     Inr \<lparr>display = [DrawCellAt 0 0 2, DrawCellAt 0 1 2, DrawCellAt 1 0 2, DrawCellAt 1 1 2],
          current = square2 1, nextg = square2 2\<rparr> \<and>
   cellAt (square2 2) 0 1 = cellAt (square2 1) 0 1 + 1 \<and> cellAt (square2 2) 0 1 \<noteq> 0 \<and>
   nonNegative (square2 2)"
proof -
  have w: "wf_grid (current (initial (square2 1)))"
    by code_simp
  have b: "inBounds (current (initial (square2 1))) 0 1"
    by code_simp
  have l: "cellAt (current (initial (square2 1))) 0 1 < INT_MAX"
    by code_simp
  have n: "nonNegative (current (initial (square2 1)))"
    by code_simp
  have m: "belowIntMax (current (initial (square2 1)))"
    by code_simp
  have v: "cellAt (square2 2) 0 1 = 2" "cellAt (square2 1) 0 1 = 1"
    by (simp_all add: square2_def cellAt_def)
  from step_values [OF w b l] w b l n m square2_next v show ?thesis
    by auto
qed

text \<open>
  C1, as stated, fails where the addition wraps. In the \<open>2 \<times> 2\<close> colony whose cells all
  hold the largest \<^verbatim>\<open>int\<close>, the cell at \<open>(0, 0)\<close> is alive with three alive neighbours: the
  rule table gives its age plus one, 2147483648, and \<^verbatim>\<open>computeNext\<close> writes the smallest
  \<^verbatim>\<open>int\<close>.
\<close>

theorem rule_table_overflow:
  "wf_grid (current (initial (square2 2147483647))) \<and>
   nonNegative (current (initial (square2 2147483647))) \<and>
   inBounds (current (initial (square2 2147483647))) 0 0 \<and>
   map_sum id nextg (computeNext (initial (square2 2147483647))) =
     Inr (square2 (- 2147483648)) \<and>
   gridGet (square2 (- 2147483648)) 0 0 = Inr (- 2147483648) \<and>
   ruleTable (cellAt (square2 2147483647) 0 0) (aliveNeighbours (square2 2147483647) 0 0) =
     2147483648"
proof -
  have "wf_grid (current (initial (square2 2147483647)))"
    by code_simp
  moreover have "nonNegative (current (initial (square2 2147483647)))"
    by code_simp
  moreover have "inBounds (current (initial (square2 2147483647))) 0 0"
    by code_simp
  moreover have "gridGet (square2 (- 2147483648)) 0 0 = Inr (- 2147483648)"
    by code_simp
  moreover have "ruleTable (cellAt (square2 2147483647) 0 0)
      (aliveNeighbours (square2 2147483647) 0 0) = 2147483648"
    by code_simp
  ultimately show ?thesis
    using square2_overflow by simp
qed

text \<open>
  C1, amended. On a well-formed grid of ages (no cell negative) \<^verbatim>\<open>computeNext\<close> produces a
  grid, and for a cell whose prior value is below the largest \<^verbatim>\<open>int\<close>, reading the cell of
  that grid succeeds and gives the rule table of the specification (\<open>ruleTable\<close>) applied
  to the cell's prior value and to the number of its alive neighbours, counted as the
  specification says (\<open>aliveNeighbours\<close>: the positions among the eight offsets that are
  inside the grid and hold a value above 0). The code tests \<^verbatim>\<open>== 0\<close>; on ages, which are
  never negative, that is the same test.
\<close>

theorem rule_table:
  assumes "wf_grid (current s)" and "nonNegative (current s)"
    and "inBounds (current s) i j" and "cellAt (current s) i j < INT_MAX"
  shows "\<exists>s'. computeNext s = Inr s' \<and>
           gridGet (nextg s') i j =
             Inr (ruleTable (cellAt (current s) i j) (aliveNeighbours (current s) i j))"
proof -
  from wf_dims [OF assms(1)] have d: "0 \<le> numRows (current s)" "0 \<le> numCols (current s)"
    by simp_all
  from computeNext_total [OF assms(1)] obtain s' where s': "computeNext s = Inr s'"
    by blast
  note r = computeNext_Inr [OF d s']
  from assms(3) r(3) have b: "inBounds (nextg s') i j"
    by (simp add: inBounds_sameSize)
  from assms(1,2,3) have v: "0 \<le> cellAt (current s) i j"
    by (simp add: nonNegative_def all_cells)
  have n: "0 \<le> aliveNeighbours (current s) i j"
    by (simp add: aliveNeighbours_def)
  from r(4) [OF assms(3)]
  have "cellAt (nextg s') i j =
      cellRule (cellAt (current s) i j) (aliveNeighbours (current s) i j)"
    by (simp add: nextCell_def countNeighbours_alive [OF assms(1,2)])
  with cellRule_ruleTable [OF v assms(4) n] b s' show ?thesis
    by (simp add: gridGet_def)
qed

theorem rule_table_witness:
  "wf_grid (current (initial (square2 1))) \<and> nonNegative (current (initial (square2 1))) \<and>
   inBounds (current (initial (square2 1))) 1 0 \<and>
   cellAt (current (initial (square2 1))) 1 0 < INT_MAX \<and>
   computeNext (initial (square2 1)) =
     Inr \<lparr>display = [DrawCellAt 0 0 2, DrawCellAt 0 1 2, DrawCellAt 1 0 2, DrawCellAt 1 1 2],
          current = square2 1, nextg = square2 2\<rparr> \<and>
   aliveNeighbours (square2 1) 1 0 = 3 \<and> ruleTable (cellAt (square2 1) 1 0) 3 = 2 \<and>
   gridGet (square2 2) 1 0 = Inr 2"
proof -
  have w: "wf_grid (current (initial (square2 1)))"
    by code_simp
  have n: "nonNegative (current (initial (square2 1)))"
    by code_simp
  have b: "inBounds (current (initial (square2 1))) 1 0"
    by code_simp
  have l: "cellAt (current (initial (square2 1))) 1 0 < INT_MAX"
    by code_simp
  have a: "aliveNeighbours (square2 1) 1 0 = 3"
    by code_simp
  have t: "ruleTable (cellAt (square2 1) 1 0) 3 = 2"
    by code_simp
  from rule_table [OF w n b l] w n b l a t square2_next show ?thesis
    by (auto simp: initial_def)
qed

text \<open>
  C4. For every grid, every position and every direction \<^verbatim>\<open>isDirectionEmpty\<close> returns a
  value and no error. A direction that leads outside the grid is reported empty, so the
  loop of \<^verbatim>\<open>isNumNeighboursCorrect\<close> goes on to the next direction with the count
  unchanged. \<^verbatim>\<open>isNumNeighboursCorrect\<close> returns a value too. On a well-formed grid
  \<^verbatim>\<open>computeNext\<close> raises neither \<open>OutOfBounds\<close> nor \<open>InvalidDimension\<close>: it returns a grid.
\<close>

theorem neighbour_count_safe:
  assumes "wf_grid (current s)"
  shows "(\<exists>b. isDirectionEmpty cur row col drow dcol = Inr b) \<and>
         (\<not> inBounds cur (row + drow) (col + dcol) \<longrightarrow>
            isDirectionEmpty cur row col drow dcol = Inr True \<and>
            (dcol \<le> 1 \<longrightarrow>
               dcolLoop cur row col drow dcol n = dcolLoop cur row col drow (dcol + 1) n)) \<and>
         (\<exists>b. isNumNeighboursCorrect cur row col k = Inr b) \<and>
         computeNext s \<noteq> Inl OutOfBounds \<and> computeNext s \<noteq> Inl InvalidDimension \<and>
         (\<exists>s'. computeNext s = Inr s')"
proof -
  have 1: "\<exists>b. isDirectionEmpty cur row col drow dcol = Inr b"
    by (simp add: isDirectionEmpty_eq)
  have 2: "isDirectionEmpty cur row col drow dcol = Inr True"
    if "\<not> inBounds cur (row + drow) (col + dcol)"
    using that by (simp add: isDirectionEmpty_eq occupied_def)
  have 3: "dcolLoop cur row col drow dcol n = dcolLoop cur row col drow (dcol + 1) n"
    if "\<not> inBounds cur (row + drow) (col + dcol)" and "dcol \<le> 1"
    using that 2 by (subst dcolLoop.simps) simp
  have 4: "\<exists>b. isNumNeighboursCorrect cur row col k = Inr b"
    by (simp add: isNumNeighboursCorrect_eq)
  from computeNext_total [OF assms] obtain s' where 5: "computeNext s = Inr s'"
    by blast
  then have 6: "computeNext s \<noteq> Inl OutOfBounds" "computeNext s \<noteq> Inl InvalidDimension"
    by simp_all
  from 1 2 3 4 5 6 show ?thesis
    by blast
qed

theorem neighbour_count_safe_witness:
  "wf_grid (current (initial (square2 1))) \<and>
   \<not> inBounds (square2 1) (0 + - 1) (0 + - 1) \<and> (- 1 :: int) \<le> 1 \<and>
   isDirectionEmpty (square2 1) 0 0 (- 1) (- 1) = Inr True \<and>
   dcolLoop (square2 1) 0 0 (- 1) (- 1) 0 = dcolLoop (square2 1) 0 0 (- 1) (- 1 + 1) 0 \<and>
   (\<exists>b. isNumNeighboursCorrect (square2 1) 0 0 3 = Inr b) \<and>
   (\<exists>s'. computeNext (initial (square2 1)) = Inr s')"
proof -
  have w: "wf_grid (current (initial (square2 1)))"
    by code_simp
  have o: "\<not> inBounds (square2 1) (0 + - 1) (0 + - 1)"
    by code_simp
  from neighbour_count_safe [OF w, of "square2 1" 0 0 "- 1" "- 1" 0 3] w o show ?thesis
    by simp
qed

text \<open>
  C9. The grid \<^verbatim>\<open>computeNext\<close> produces (or the error it stops with) is determined by
  \<^verbatim>\<open>current\<close> alone: two runs on the same grid agree, whatever the display has shown and
  whatever \<^verbatim>\<open>next\<close> held before.
\<close>

theorem computeNext_deterministic:
  "map_sum id nextg (computeNext \<lparr>display = d1, current = g, nextg = n1\<rparr>) =
   map_sum id nextg (computeNext \<lparr>display = d2, current = g, nextg = n2\<rparr>)"
proof -
  let ?s = "\<lparr>display = d1, current = g, nextg = n1\<rparr>"
  let ?t = "\<lparr>display = d2, current = g, nextg = n2\<rparr>"
  show ?thesis
  proof (cases "numRows g < 0 \<or> numCols g < 0")
    case True
    then have "computeNext ?s = Inl InvalidDimension" "computeNext ?t = Inl InvalidDimension"
      by (simp_all add: computeNext_negative)
    then show ?thesis by simp
  next
    case False
    then have ds: "0 \<le> numRows (current ?s)" "0 \<le> numCols (current ?s)"
      and dt: "0 \<le> numRows (current ?t)" "0 \<le> numCols (current ?t)"
      by simp_all
    from computeNext_returns [OF ds] obtain s' where sr: "computeNext ?s = Inr s'"
      by blast
    from computeNext_returns [OF dt] obtain t' where tr: "computeNext ?t = Inr t'"
      by blast
    note a = computeNext_Inr [OF ds sr]
    note b = computeNext_Inr [OF dt tr]
    have "nextg s' = nextg t'"
    proof (rule grid_eqI)
      show "wf_grid (nextg s')" by (rule a(2))
      show "wf_grid (nextg t')" by (rule b(2))
      show "numRows (nextg s') = numRows (nextg t')"
        using a(3) b(3) by (simp add: sameSize_def)
      show "numCols (nextg s') = numCols (nextg t')"
        using a(3) b(3) by (simp add: sameSize_def)
    next
      fix r c assume "inBounds (nextg s') r c"
      with a(3) have i: "inBounds g r c" by (simp add: inBounds_sameSize)
      from a(4) [of r c] b(4) [of r c] i show "cellAt (nextg s') r c = cellAt (nextg t') r c"
        by simp
    qed
    with sr tr show ?thesis by simp
  qed
qed




text \<open>
  C3. \<^verbatim>\<open>computeNext\<close> leaves \<^verbatim>\<open>current\<close> as it found it. Every cell of the grid it produces
  is \<open>nextCell\<close> of the original \<^verbatim>\<open>current\<close> at that position, a function of the prior
  generation only. And the order of the visit does not matter: running the loop body over
  the cells of the freshly resized \<^verbatim>\<open>next\<close> along any list \<open>ps\<close> that covers the same
  positions as the two loops succeeds too, leaves \<^verbatim>\<open>current\<close> alone and ends with the same
  \<^verbatim>\<open>next\<close>.
\<close>

theorem input_untouched:
  assumes "wf_grid (current s)" and "computeNext s = Inr s'"
    and "set ps = set (positions (current s))"
  shows "current s' = current s \<and>
         (inBounds (current s) i j \<longrightarrow>
            gridGet (nextg s') i j = Inr (nextCell (current s) i j)) \<and>
         (\<exists>g t. resize (numRows (current s)) (numCols (current s)) = Inr g \<and>
                 cellSteps (s\<lparr>nextg := g\<rparr>) ps = Inr t \<and>
                 current t = current s \<and> nextg t = nextg s')"
proof -
  from wf_dims [OF assms(1)] have d: "0 \<le> numRows (current s)" "0 \<le> numCols (current s)"
    by simp_all
  note r = computeNext_Inr [OF d assms(2)]
  have cell: "gridGet (nextg s') i j = Inr (nextCell (current s) i j)"
    if b: "inBounds (current s) i j"
  proof -
    from b r(3) have "inBounds (nextg s') i j" by (simp add: inBounds_sameSize)
    with r(4) [OF b] show ?thesis by (simp add: gridGet_def)
  qed
  from computeNext_steps [OF d] obtain g where
    g: "resize (numRows (current s)) (numCols (current s)) = Inr g" "wf_grid g"
      "sameSize g (current s)"
    by metis
  let ?u = "s\<lparr>nextg := g\<rparr>"
  have w: "wf_grid (nextg ?u)" using g(2) by simp
  have z: "sameSize (nextg ?u) (current ?u)" using g(3) by simp
  have b: "\<And>a b. (a, b) \<in> set ps \<Longrightarrow> inBounds (current ?u) a b"
    by (simp add: assms(3) set_positions)
  from cellSteps_total [OF w z b] obtain t where t: "cellSteps ?u ps = Inr t"
    by blast
  from cellSteps_current [OF t] have ct: "current t = current s" by simp
  from cellSteps_Inr [OF w z b t]
  have u: "wf_grid (nextg t)" "sameSize (nextg t) (current s)"
    "\<And>a c. inBounds (current s) a c \<Longrightarrow> cellAt (nextg t) a c = nextCell (current s) a c"
    by (simp_all add: assms(3) set_positions)
  have "nextg t = nextg s'"
  proof (rule grid_eqI)
    show "wf_grid (nextg t)" by (rule u(1))
    show "wf_grid (nextg s')" by (rule r(2))
    show "numRows (nextg t) = numRows (nextg s')"
      using u(2) r(3) by (simp add: sameSize_def)
    show "numCols (nextg t) = numCols (nextg s')"
      using u(2) r(3) by (simp add: sameSize_def)
  next
    fix a c assume "inBounds (nextg t) a c"
    with u(2) have i: "inBounds (current s) a c" by (simp add: inBounds_sameSize)
    from u(3) [OF i] r(4) [OF i] show "cellAt (nextg t) a c = cellAt (nextg s') a c"
      by simp
  qed
  with t ct g(1) r(1) cell show ?thesis by blast
qed

theorem input_untouched_witness:
  "wf_grid (current (initial (square2 1))) \<and>
   set [(1, 1), (1, 0), (0, 1), (0, 0)] = set (positions (current (initial (square2 1)))) \<and>
   inBounds (current (initial (square2 1))) 0 0 \<and>
   computeNext (initial (square2 1)) =
     Inr \<lparr>display = [DrawCellAt 0 0 2, DrawCellAt 0 1 2, DrawCellAt 1 0 2, DrawCellAt 1 1 2],
          current = square2 1, nextg = square2 2\<rparr> \<and>
   gridGet (square2 2) 0 0 = Inr (nextCell (square2 1) 0 0) \<and>
   resize 2 2 = Inr (square2 0) \<and>
   cellSteps ((initial (square2 1))\<lparr>nextg := square2 0\<rparr>) [(1, 1), (1, 0), (0, 1), (0, 0)] =
     Inr \<lparr>display = [DrawCellAt 1 1 2, DrawCellAt 1 0 2, DrawCellAt 0 1 2, DrawCellAt 0 0 2],
          current = square2 1, nextg = square2 2\<rparr>"
proof -
  have w: "wf_grid (current (initial (square2 1)))"
    by code_simp
  have p: "set [(1, 1), (1, 0), (0, 1), (0, 0)] = set (positions (current (initial (square2 1))))"
    by code_simp
  have b: "inBounds (current (initial (square2 1))) 0 0"
    by code_simp
  have z: "resize 2 2 = Inr (square2 0)"
    by code_simp
  from input_untouched [OF w square2_next p, of 0 0] w p b z square2_next square2_backwards
  show ?thesis
    by (simp add: initial_def)
qed

text \<open>
  C7. The block is a still life. If a well-formed \<^verbatim>\<open>current\<close> is empty except for a
  \<open>2 \<times> 2\<close> block of cells of age 1 (anywhere inside the grid, so also away from its
  edges), \<^verbatim>\<open>computeNext\<close> returns, leaves \<^verbatim>\<open>current\<close> alone, and \<^verbatim>\<open>next\<close> is empty
  except for the same block, each of its cells now of age 2.
\<close>

theorem block_still_life:
  assumes "wf_grid (current s)" and "isBlock r c 1 (current s)"
  shows "\<exists>s'. computeNext s = Inr s' \<and> current s' = current s \<and> isBlock r c 2 (nextg s')"
proof -
  from wf_dims [OF assms(1)] have d: "0 \<le> numRows (current s)" "0 \<le> numCols (current s)"
    by simp_all
  from computeNext_total [OF assms(1)] obtain s' where s': "computeNext s = Inr s'"
    by blast
  note n = computeNext_Inr [OF d s']
  have "cellAt (nextg s') i j = (if inBlock r c i j then 2 else 0)"
    if "(i, j) \<in> set (positions (nextg s'))" for i j
  proof -
    from that n(3) have b: "inBounds (current s) i j"
      by (simp add: set_positions inBounds_sameSize)
    from n(4) [OF b] block_nextCell [OF assms(2) b] show ?thesis
      by simp
  qed
  then have "list_all (\<lambda>(i, j). cellAt (nextg s') i j = (if inBlock r c i j then 2 else 0))
      (positions (nextg s'))"
    by (auto simp: list_all_iff)
  moreover from assms(2) n(3)
  have "inBounds (nextg s') r c" "inBounds (nextg s') (r + 1) (c + 1)"
    by (simp_all add: isBlock_def inBounds_sameSize)
  ultimately have "isBlock r c 2 (nextg s')"
    by (simp add: isBlock_def)
  with s' n(1) show ?thesis by simp
qed

theorem block_still_life_witness:
  "wf_grid (current (initial (block4 1))) \<and> isBlock 1 1 1 (current (initial (block4 1))) \<and>
   map_sum id nextg (computeNext (initial (block4 1))) = Inr (block4 2) \<and>
   isBlock 1 1 2 (block4 2)"
proof -
  have w: "wf_grid (current (initial (block4 1)))"
    by code_simp
  have b: "isBlock 1 1 1 (current (initial (block4 1)))"
    by code_simp
  have b2: "isBlock 1 1 2 (block4 2)"
    by code_simp
  from block_still_life [OF w b] w b b2 block4_next show ?thesis
    by simp
qed

text \<open>
  C8. Suppose the loop has handled the events \<open>before\<close> and is still running, in state
  \<open>s1\<close> (every step those events asked for has run to its end: \<^verbatim>\<open>advance\<close> is a call, and
  the next event is looked at only when it has returned). If the next event is a mouse
  press, the loop stops in the state \<open>s1\<close>, and it is in that very state whatever events
  \<open>after\<close> follow the press: no further generation is computed, nothing more is drawn.
\<close>

theorem cancel_stops:
  assumes "getEventClass ev \<noteq> TIMER_EVENT" and "getEventType ev = MOUSE_PRESSED"
    and "runAnimation s before = Inr (Running, s1)"
  shows "runAnimation s (before @ [ev]) = Inr (Stopped, s1) \<and>
         runAnimation s (before @ ev # after) = Inr (Stopped, s1)"
  using runAnimation_press [OF assms, of "[]"] runAnimation_press [OF assms, of after]
  by simp

theorem cancel_stops_witness:
  "getEventClass mousePress \<noteq> TIMER_EVENT \<and> getEventType mousePress = MOUSE_PRESSED \<and>
   runAnimation (initial (square2 1)) [timerTick, timerTick] = Inr (Running, afterTwoTicks) \<and>
   runAnimation (initial (square2 1)) ([timerTick, timerTick] @ [mousePress]) =
     Inr (Stopped, afterTwoTicks) \<and>
   runAnimation (initial (square2 1)) ([timerTick, timerTick] @ mousePress # [timerTick]) =
     Inr (Stopped, afterTwoTicks)"
proof -
  have c: "getEventClass mousePress \<noteq> TIMER_EVENT"
    by (simp add: mousePress_def)
  have t: "getEventType mousePress = MOUSE_PRESSED"
    by (simp add: mousePress_def)
  from cancel_stops [OF c t two_ticks, of "[timerTick]"] c t two_ticks show ?thesis
    by simp
qed

end
